theory Spec2Isabelle
  imports Main "HOL-Library.Multiset" "HOL-Library.List_Lexorder" "HOL-Library.Monad_Syntax"
begin

section \<open>Data model of main.cpp\<close>

text \<open>
  A \<^verbatim>\<open>std::string\<close> is a \<^typ>\<open>string\<close> (a list of 8-bit characters) and a
  \<^verbatim>\<open>vector<string>\<close> is a list of strings. The comparers read characters as
  \<^verbatim>\<open>char\<close> values; \<open>char_val\<close> is the value of a signed 8-bit \<^verbatim>\<open>char\<close>.
  The proofs below use of \<open>char_val\<close> only that different characters have different
  values, which an unsigned \<^verbatim>\<open>char\<close> has as well.
  The loop counter \<^verbatim>\<open>unsigned int i\<close> of the two alphabetical comparers is a natural
  number here: strings are taken to be shorter than \<open>2 ^ 32\<close> characters.
\<close>

type_synonym vec = "string list"

type_synonym comparer = "string \<Rightarrow> string \<Rightarrow> bool"

definition char_val :: "char \<Rightarrow> int" where
  "char_val c = (let n = of_char c in if n < 128 then n else n - 256)"

text \<open>
  \<^verbatim>\<open>enum class ESortType { AlphAsc, AlphDesc, LastLetterAsc }\<close> has the underlying type
  \<^verbatim>\<open>int\<close>; a selector is the integer it holds, so that a value outside the three
  enumerators (a cast integer) exists in the model and reaches the \<^verbatim>\<open>default\<close> branch
  of the dispatch.
\<close>

type_synonym ESortType = int

definition AlphAsc :: ESortType where "AlphAsc = 0"
definition AlphDesc :: ESortType where "AlphDesc = 1"
definition LastLetterAsc :: ESortType where "LastLetterAsc = 2"

section \<open>The three comparers\<close>

text \<open>\<^verbatim>\<open>AlphAscStrComp::IsFirstAboveSecond\<close>: the \<^verbatim>\<open>while\<close> loop from index \<open>i\<close>.\<close>

function AlphAsc_loop :: "string \<Rightarrow> string \<Rightarrow> nat \<Rightarrow> bool" where
  "AlphAsc_loop firstString secondString i =
     (if i < length firstString \<and> i < length secondString then
        (if char_val (firstString ! i) < char_val (secondString ! i) then True
         else if char_val (firstString ! i) > char_val (secondString ! i) then False
         else AlphAsc_loop firstString secondString (i + 1))
      else length firstString < length secondString)"
  by pat_completeness auto
termination
  by (relation "measure (\<lambda>(firstString, secondString, i). length firstString - i)") auto

definition AlphAsc_IsFirstAboveSecond :: comparer where
  "AlphAsc_IsFirstAboveSecond firstString secondString = AlphAsc_loop firstString secondString 0"

text \<open>\<^verbatim>\<open>AlphDescStrComp::IsFirstAboveSecond\<close>.\<close>

function AlphDesc_loop :: "string \<Rightarrow> string \<Rightarrow> nat \<Rightarrow> bool" where
  "AlphDesc_loop firstString secondString i =
     (if i < length firstString \<and> i < length secondString then
        (if char_val (firstString ! i) > char_val (secondString ! i) then True
         else if char_val (firstString ! i) < char_val (secondString ! i) then False
         else AlphDesc_loop firstString secondString (i + 1))
      else length secondString < length firstString)"
  by pat_completeness auto
termination
  by (relation "measure (\<lambda>(firstString, secondString, i). length firstString - i)") auto

definition AlphDesc_IsFirstAboveSecond :: comparer where
  "AlphDesc_IsFirstAboveSecond firstString secondString = AlphDesc_loop firstString secondString 0"

text \<open>
  \<^verbatim>\<open>LastLetterAscStrComp::IsFirstAboveSecond\<close>. A reverse iterator is the list of the
  characters it has still to visit, last character first: \<^verbatim>\<open>rbegin()\<close> is the reversed
  string, \<^verbatim>\<open>rend()\<close> is reached when the list is empty, \<^verbatim>\<open>*it\<close> is its head and
  \<^verbatim>\<open>++it\<close> its tail. The three tests of the loop body are in the source's order.
\<close>

fun LastLetterAsc_loop :: "string \<Rightarrow> string \<Rightarrow> bool" where
  "LastLetterAsc_loop [] reverseIt2 = True"
| "LastLetterAsc_loop (c1 # reverseIt1) [] = False"
| "LastLetterAsc_loop (c1 # reverseIt1) (c2 # reverseIt2) =
     (if c1 \<noteq> c2 then char_val c1 < char_val c2
      else LastLetterAsc_loop reverseIt1 reverseIt2)"

definition LastLetterAsc_IsFirstAboveSecond :: comparer where
  "LastLetterAsc_IsFirstAboveSecond firstString secondString =
     LastLetterAsc_loop (rev firstString) (rev secondString)"

section \<open>The merge sort\<close>

text \<open>
  Indices are C++ \<^verbatim>\<open>int\<close>s, here integers: the wrapper passes 0 and a value of the
  \<^verbatim>\<open>int\<close> range, and between two such bounds no sum or difference below leaves that
  range, but for the last \<^verbatim>\<open>k++\<close> of \<^verbatim>\<open>merge\<close> on a vector of \<open>2 ^ 31\<close>
  elements, whose value is not read any more. A vector is passed by reference and updated in place: every function takes the
  vector and returns the updated one. \<^verbatim>\<open>operator[]\<close> outside the vector is undefined
  behaviour and constructing a vector of negative size throws; both are the result
  \<open>None\<close>.
\<close>

definition in_range :: "vec \<Rightarrow> int \<Rightarrow> bool" where
  "in_range v k = (0 \<le> k \<and> k < int (length v))"

text \<open>
  The two filling loops of \<^verbatim>\<open>merge\<close>,
  \<^verbatim>\<open>for(i = 0; i < upperSize; i++) upArray[i] = originVec[upper + i];\<close> and
  \<^verbatim>\<open>for(j = 0; j < lowerSize; j++) lowArray[j] = originVec[mid + 1 + j];\<close>:
  \<open>base\<close> is \<^verbatim>\<open>upper\<close> for the first and \<^verbatim>\<open>mid + 1\<close> for the second.
\<close>

function fill_loop :: "vec \<Rightarrow> int \<Rightarrow> int \<Rightarrow> int \<Rightarrow> vec \<Rightarrow> vec option" where
  "fill_loop originVec base len i arr =
     (if i < len then
        (if in_range arr i \<and> in_range originVec (base + i)
         then fill_loop originVec base len (i + 1) (arr[nat i := originVec ! nat (base + i)])
         else None)
      else Some arr)"
  by pat_completeness auto
termination
  by (relation "measure (\<lambda>(originVec, base, len, i, arr). nat (len - i))") auto

text \<open>The merging loop \<^verbatim>\<open>while(i < upperSize && j < lowerSize)\<close>; it leaves
  \<^verbatim>\<open>originVec\<close>, \<^verbatim>\<open>i\<close>, \<^verbatim>\<open>j\<close> and \<^verbatim>\<open>k\<close> to the loops after it.\<close>

function merge_loop ::
  "comparer \<Rightarrow> vec \<Rightarrow> vec \<Rightarrow> int \<Rightarrow> int \<Rightarrow> vec \<Rightarrow> int \<Rightarrow> int \<Rightarrow> int \<Rightarrow> (vec \<times> int \<times> int \<times> int) option" where
  "merge_loop stringComparer upArray lowArray upperSize lowerSize originVec i j k =
     (if i < upperSize \<and> j < lowerSize then
        (if in_range upArray i \<and> in_range lowArray j \<and> in_range originVec k then
           (if stringComparer (upArray ! nat i) (lowArray ! nat j)
            then merge_loop stringComparer upArray lowArray upperSize lowerSize
                   (originVec[nat k := upArray ! nat i]) (i + 1) j (k + 1)
            else merge_loop stringComparer upArray lowArray upperSize lowerSize
                   (originVec[nat k := lowArray ! nat j]) i (j + 1) (k + 1))
         else None)
      else Some (originVec, i, j, k))"
  by pat_completeness auto
termination
  by (relation "measure (\<lambda>(stringComparer, upArray, lowArray, upperSize, lowerSize, originVec, i, j, k).
        nat (upperSize - i) + nat (lowerSize - j))") auto

text \<open>
  The two loops for the extra elements,
  \<^verbatim>\<open>while(i < upperSize) { originVec[k] = upArray[i++]; k++; }\<close> and the same for
  \<^verbatim>\<open>lowArray\<close> with \<^verbatim>\<open>j\<close>.
\<close>

function rest_loop :: "vec \<Rightarrow> int \<Rightarrow> vec \<Rightarrow> int \<Rightarrow> int \<Rightarrow> (vec \<times> int) option" where
  "rest_loop arr len originVec i k =
     (if i < len then
        (if in_range arr i \<and> in_range originVec k
         then rest_loop arr len (originVec[nat k := arr ! nat i]) (i + 1) (k + 1)
         else None)
      else Some (originVec, k))"
  by pat_completeness auto
termination
  by (relation "measure (\<lambda>(arr, len, originVec, i, k). nat (len - i))") auto

definition merge :: "vec \<Rightarrow> int \<Rightarrow> int \<Rightarrow> int \<Rightarrow> comparer \<Rightarrow> vec option" where
  "merge originVec upper mid lower stringComparer =
     (let upperSize = mid - upper + 1;
          lowerSize = lower - mid
      in if upperSize < 0 \<or> lowerSize < 0 then None
         else do {
           upArray \<leftarrow> fill_loop originVec upper upperSize 0 (replicate (nat upperSize) []);
           lowArray \<leftarrow> fill_loop originVec (mid + 1) lowerSize 0 (replicate (nat lowerSize) []);
           (v1, i, j, k) \<leftarrow> merge_loop stringComparer upArray lowArray upperSize lowerSize originVec 0 0 upper;
           (v2, k2) \<leftarrow> rest_loop upArray upperSize v1 i k;
           (v3, k3) \<leftarrow> rest_loop lowArray lowerSize v2 j k2;
           Some v3
         })"

text \<open>\<^verbatim>\<open>MergeSort\<close>. Under \<^verbatim>\<open>upper < lower\<close> the difference is positive, where the
  truncating division of C++ is \<open>div\<close>.\<close>

function MergeSort :: "vec \<Rightarrow> int \<Rightarrow> int \<Rightarrow> comparer \<Rightarrow> vec option" where
  "MergeSort originVec upper lower stringComparer =
     (if upper < lower then
        (let mid = upper + (lower - upper) div 2
         in do {
           v1 \<leftarrow> MergeSort originVec upper mid stringComparer;
           v2 \<leftarrow> MergeSort v1 (mid + 1) lower stringComparer;
           merge v2 upper mid lower stringComparer
         })
      else Some originVec)"
  by pat_completeness auto
termination
  by (relation "measure (\<lambda>(originVec, upper, lower, stringComparer). nat (lower - upper))") auto

text \<open>
  \<^verbatim>\<open>listToSort.size() - 1\<close> is computed in the 64-bit unsigned \<^verbatim>\<open>size_t\<close> and then
  converted to the 32-bit \<^verbatim>\<open>int\<close> parameter \<^verbatim>\<open>lower\<close>: the subtraction wraps
  modulo \<open>2 ^ 64\<close> and the conversion keeps the low 32 bits, read as two's complement.
\<close>

definition to_int32 :: "int \<Rightarrow> int" where
  "to_int32 x = (let m = x mod 2 ^ 32 in if m < 2 ^ 31 then m else m - 2 ^ 32)"

definition size_minus_one :: "nat \<Rightarrow> int" where
  "size_minus_one n = to_int32 ((int n - 1) mod 2 ^ 64)"

text \<open>
  The \<^verbatim>\<open>switch\<close> of \<^verbatim>\<open>MergeSortWrapper\<close>: the lines written to \<^verbatim>\<open>cerr\<close> and the
  comparer object created.
\<close>

definition select_comparer :: "ESortType \<Rightarrow> string list \<times> comparer" where
  "select_comparer sortType =
     (if sortType = AlphAsc then ([], AlphAsc_IsFirstAboveSecond)
      else if sortType = AlphDesc then ([], AlphDesc_IsFirstAboveSecond)
      else if sortType = LastLetterAsc then ([], LastLetterAsc_IsFirstAboveSecond)
      else ([''ERROR: Unknown sort type in MergeSortWrapper. defaulting to AlphAsc''],
            AlphAsc_IsFirstAboveSecond))"

text \<open>\<^verbatim>\<open>MergeSortWrapper\<close> returns what it wrote to \<^verbatim>\<open>cerr\<close> and the sorted copy of
  its by-value argument.\<close>

definition MergeSortWrapper :: "vec \<Rightarrow> ESortType \<Rightarrow> string list \<times> vec option" where
  "MergeSortWrapper listToSort sortType =
     (let (cerr, stringSorter) = select_comparer sortType
      in (cerr, MergeSort listToSort 0 (size_minus_one (length listToSort)) stringSorter))"

section \<open>File processing\<close>

text \<open>
  \<^verbatim>\<open>std::isdigit\<close> and \<^verbatim>\<open>std::isalnum\<close> in the "C" locale, which the program never
  changes: the ASCII digits, and the ASCII digits and letters. On a byte outside ASCII
  both are taken to answer no.
\<close>

definition isdigit :: "char \<Rightarrow> bool" where
  "isdigit ch = (let n = (of_char ch :: nat) in 48 \<le> n \<and> n \<le> 57)"

definition isalnum :: "char \<Rightarrow> bool" where
  "isalnum ch = (let n = (of_char ch :: nat) in
     (48 \<le> n \<and> n \<le> 57) \<or> (65 \<le> n \<and> n \<le> 90) \<or> (97 \<le> n \<and> n \<le> 122))"

fun ContainsSpecial :: "string \<Rightarrow> bool" where
  "ContainsSpecial [] = False"
| "ContainsSpecial (ch # str) =
     (if isdigit ch \<or> \<not> isalnum ch then True else ContainsSpecial str)"

text \<open>
  The file system maps a file name to the lines \<^verbatim>\<open>getline\<close> yields from that file, or to
  \<open>None\<close> when the file cannot be opened. \<^verbatim>\<open>ReadFile\<close> returns the lines it wrote to the
  console and \<^verbatim>\<open>listOut\<close>. The second test \<^verbatim>\<open>if (!fileIn)\<close> cannot succeed after
  \<^verbatim>\<open>is_open()\<close> held and has no branch here.
\<close>

type_synonym filesystem = "string \<Rightarrow> string list option"

fun ReadFile_loop :: "string \<Rightarrow> string list \<Rightarrow> string list \<times> vec \<Rightarrow> string list \<times> vec" where
  "ReadFile_loop fileName [] (console, listOut) = (console, listOut)"
| "ReadFile_loop fileName (line # rest) (console, listOut) =
     (if line \<noteq> [] then
        (if ContainsSpecial line
         then ReadFile_loop fileName rest
                (console @ [''ERROR: special characters or numbers: '' @ line @ '' in file: '' @ fileName,
                            line @ '' has been removed''], listOut)
         else ReadFile_loop fileName rest (console, listOut @ [line]))
      else ReadFile_loop fileName rest (console, listOut))"

definition ReadFile :: "filesystem \<Rightarrow> string \<Rightarrow> string list \<times> vec" where
  "ReadFile fs fileName =
     (case fs fileName of
        None \<Rightarrow> ([''Unable to open file, please close input files: '' @ fileName], [])
      | Some lines \<Rightarrow> ReadFile_loop fileName lines ([], []))"

section \<open>The two ingestion strategies\<close>







section \<open>Proof set-up\<close>

text \<open>The loop equations are unfolded by hand or by computation induction.\<close>

declare AlphAsc_loop.simps [simp del]
declare AlphDesc_loop.simps [simp del]
declare fill_loop.simps [simp del]
declare merge_loop.simps [simp del]
declare rest_loop.simps [simp del]
declare MergeSort.simps [simp del]

section \<open>Functional counterparts used in the proofs\<close>

text \<open>The characters of a string as the values the comparers compare; lists of integers
  carry the lexicographic order.\<close>

definition key :: "string \<Rightarrow> int list" where
  "key s = map char_val s"

text \<open>What the three loops at the end of \<^verbatim>\<open>merge\<close> compute from the two temporary
  arrays, as a function on lists.\<close>

fun merge_lists :: "comparer \<Rightarrow> vec \<Rightarrow> vec \<Rightarrow> vec" where
  "merge_lists cmp [] ys = ys"
| "merge_lists cmp (x # xs) [] = x # xs"
| "merge_lists cmp (x # xs) (y # ys) =
     (if cmp x y then x # merge_lists cmp xs (y # ys) else y # merge_lists cmp (x # xs) ys)"

text \<open>What \<^verbatim>\<open>MergeSort\<close> computes on the range it is given: a range of \<open>n\<close> elements from
  \<^verbatim>\<open>upper\<close> to \<^verbatim>\<open>lower\<close> is cut after \<^verbatim>\<open>mid\<close>, with \<open>(n + 1) div 2\<close> elements in
  the upper part.\<close>

function msort_lists :: "comparer \<Rightarrow> vec \<Rightarrow> vec" where
  "msort_lists cmp xs =
     (if length xs \<le> 1 then xs
      else merge_lists cmp (msort_lists cmp (take ((length xs + 1) div 2) xs))
                           (msort_lists cmp (drop ((length xs + 1) div 2) xs)))"
  by pat_completeness auto
termination
  by (relation "measure (\<lambda>(cmp, xs). length xs)") auto

declare msort_lists.simps [simp del]

text \<open>The line validator in the words of the specification: a line is accepted when it is
  not empty and each of its characters is a letter of \<^verbatim>\<open>[A-Za-z]\<close>.\<close>

definition is_letter :: "char \<Rightarrow> bool" where
  "is_letter ch = (let n = (of_char ch :: nat) in (65 \<le> n \<and> n \<le> 90) \<or> (97 \<le> n \<and> n \<le> 122))"

definition IsValid :: "string \<Rightarrow> bool" where
  "IsValid text = (text \<noteq> [] \<and> list_all is_letter text)"

text \<open>The virtual call \<^verbatim>\<open>stringSorter->IsFirstAboveSecond\<close> on the object the wrapper
  creates for a selector, and the vector the wrapper returns.\<close>

definition IsFirstAboveSecond :: "ESortType \<Rightarrow> comparer" where
  "IsFirstAboveSecond sortType = snd (select_comparer sortType)"

definition Sort :: "vec \<Rightarrow> ESortType \<Rightarrow> vec option" where
  "Sort L sortType = snd (MergeSortWrapper L sortType)"



section \<open>The comparers as orders on the character values\<close>

lemma char_val_inj: "char_val c = char_val d \<longleftrightarrow> c = d"
proof
  assume h: "char_val c = char_val d"
  have b: "\<And>x::char. (of_char x :: int) < 256 \<and> 0 \<le> (of_char x :: int)"
    by (metis of_char_mod_256 pos_mod_bound pos_mod_sign zero_less_numeral)
  from h b[of c] b[of d] have "(of_char c :: int) = of_char d"
    by (auto simp: char_val_def Let_def split: if_splits)
  then show "c = d" by simp
qed simp


lemma Nil_less_iff: "([] :: int list) < xs \<longleftrightarrow> xs \<noteq> []"
  by (cases xs) simp_all

lemma AlphAsc_loop_key:
  "i \<le> length a \<Longrightarrow> i \<le> length b \<Longrightarrow> AlphAsc_loop a b i = (drop i (key a) < drop i (key b))"
proof (induction a b i rule: AlphAsc_loop.induct)
  case (1 a b i)
  show ?case
  proof (cases "i < length a \<and> i < length b")
    case True
    then have da: "drop i (key a) = char_val (a ! i) # drop (Suc i) (key a)"
      and db: "drop i (key b) = char_val (b ! i) # drop (Suc i) (key b)"
      by (simp_all add: key_def Cons_nth_drop_Suc [symmetric])
    show ?thesis
      using True 1 da db by (subst AlphAsc_loop.simps) auto
  next
    case False
    then show ?thesis using 1(2,3)
      by (subst AlphAsc_loop.simps) (auto simp: key_def Nil_less_iff)
  qed
qed

lemma AlphAsc_key: "AlphAsc_IsFirstAboveSecond a b = (key a < key b)"
  by (simp add: AlphAsc_IsFirstAboveSecond_def AlphAsc_loop_key)

lemma AlphDesc_loop_swap: "AlphDesc_loop a b i = AlphAsc_loop b a i"
proof (induction a b i rule: AlphDesc_loop.induct)
  case (1 a b i)
  show ?case
    using 1 by (subst AlphDesc_loop.simps, subst AlphAsc_loop.simps) auto
qed

lemma AlphDesc_key: "AlphDesc_IsFirstAboveSecond a b = (key b < key a)"
  by (simp add: AlphDesc_IsFirstAboveSecond_def AlphDesc_loop_swap AlphAsc_loop_key)

lemma LastLetterAsc_loop_key: "LastLetterAsc_loop xs ys = (key xs \<le> key ys)"
  by (induction xs ys rule: LastLetterAsc_loop.induct) (auto simp: key_def char_val_inj)

lemma LastLetterAsc_key: "LastLetterAsc_IsFirstAboveSecond a b = (key (rev a) \<le> key (rev b))"
  by (simp add: LastLetterAsc_IsFirstAboveSecond_def LastLetterAsc_loop_key)

section \<open>The loops of merge and MergeSort on slices of the vector\<close>

lemma fill_loop_slice:
  "0 \<le> i \<Longrightarrow> i \<le> int (length A) \<Longrightarrow> length arr = length A \<Longrightarrow>
   fill_loop (pre @ A @ post) (int (length pre)) (int (length A)) i arr
     = Some (take (nat i) arr @ drop (nat i) A)"
proof (induction "pre @ A @ post" "int (length pre)" "int (length A)" i arr rule: fill_loop.induct)
  case (1 i arr)
  show ?case
  proof (cases "i < int (length A)")
    case True
    have r: "in_range arr i" "in_range (pre @ A @ post) (int (length pre) + i)"
      using True 1(2,4) by (auto simp: in_range_def)
    have lt: "nat i < length A" using True 1(2) by simp
    have "nat (int (length pre) + i) = length pre + nat i" using 1(2) by simp
    then have nth: "(pre @ A @ post) ! nat (int (length pre) + i) = A ! nat i"
      using lt by (simp add: nth_append)
    have step: "fill_loop (pre @ A @ post) (int (length pre)) (int (length A)) (i + 1) (arr[nat i := A ! nat i])
        = Some (take (nat (i + 1)) (arr[nat i := A ! nat i]) @ drop (nat (i + 1)) A)"
      using 1(1)[OF True] r True 1(2,4) nth by simp
    have n1: "nat (i + 1) = Suc (nat i)" using 1(2) by simp
    have "take (Suc (nat i)) (arr[nat i := A ! nat i]) @ drop (Suc (nat i)) A
          = take (nat i) arr @ drop (nat i) A"
      using lt 1(4) by (simp add: take_Suc_conv_app_nth Cons_nth_drop_Suc)
    then show ?thesis
      using True r step nth n1 by (subst fill_loop.simps) simp
  next
    case False
    then show ?thesis using 1(2,3,4) by (subst fill_loop.simps) simp
  qed
qed

lemma fill_loop_all:
  "fill_loop (pre @ A @ post) (int (length pre)) (int (length A)) 0 (replicate (length A) []) = Some A"
  using fill_loop_slice [of 0 A "replicate (length A) []" pre post] by simp

lemma rest_loop_slice:
  "0 \<le> i \<Longrightarrow> nat i + length mid = length arr \<Longrightarrow>
   rest_loop arr (int (length arr)) (pre @ mid @ post) i (int (length pre))
     = Some (pre @ drop (nat i) arr @ post, int (length pre) + int (length mid))"
proof (induction mid arbitrary: pre i)
  case Nil
  then have "i = int (length arr)" by auto
  then show ?case by (subst rest_loop.simps) simp
next
  case (Cons m mid)
  have lt: "i < int (length arr)" "nat i < length arr" using Cons.prems by auto
  have r: "in_range arr i" "in_range (pre @ (m # mid) @ post) (int (length pre))"
    using lt Cons.prems by (auto simp: in_range_def)
  have upd: "(pre @ (m # mid) @ post)[nat (int (length pre)) := arr ! nat i]
             = (pre @ [arr ! nat i]) @ mid @ post"
    by (simp add: list_update_append)
  have n1: "nat (i + 1) = Suc (nat i)" using Cons.prems by simp
  have ih: "rest_loop arr (int (length arr)) ((pre @ [arr ! nat i]) @ mid @ post) (i + 1)
              (int (length (pre @ [arr ! nat i])))
            = Some ((pre @ [arr ! nat i]) @ drop (nat (i + 1)) arr @ post,
                    int (length (pre @ [arr ! nat i])) + int (length mid))"
    using Cons.prems by (intro Cons.IH) auto
  have k1: "int (length pre) + 1 = int (length (pre @ [arr ! nat i]))" by simp
  show ?case
    apply (subst rest_loop.simps)
    using lt r ih n1
    apply (simp only: upd k1 if_True simp_thms)
    apply (simp add: Cons_nth_drop_Suc)
    done
qed

lemma merge_lists_Nil2: "merge_lists cmp xs [] = xs"
  by (cases xs) simp_all

lemma merge_tail:
  "0 \<le> i \<Longrightarrow> 0 \<le> j \<Longrightarrow> nat i \<le> length up \<Longrightarrow> nat j \<le> length low \<Longrightarrow>
   length mid = (length up - nat i) + (length low - nat j) \<Longrightarrow>
   do {
     (v1, i', j', k') \<leftarrow> merge_loop cmp up low (int (length up)) (int (length low))
                            (pre @ mid @ post) i j (int (length pre));
     (v2, k2) \<leftarrow> rest_loop up (int (length up)) v1 i' k';
     (v3, k3) \<leftarrow> rest_loop low (int (length low)) v2 j' k2;
     Some v3
   } = Some (pre @ merge_lists cmp (drop (nat i) up) (drop (nat j) low) @ post)"
proof (induction mid arbitrary: pre i j)
  case Nil
  then have "i = int (length up)" "j = int (length low)" by auto
  then show ?case
    by (subst merge_loop.simps) (simp add: rest_loop.simps)
next
  case (Cons m mid)
  show ?case
  proof (cases "i < int (length up) \<and> j < int (length low)")
    case True
    then have lt: "nat i < length up" "nat j < length low" using Cons.prems by auto
    have r: "in_range up i" "in_range low j" "in_range (pre @ (m # mid) @ post) (int (length pre))"
      using True Cons.prems by (auto simp: in_range_def)
    have upd: "\<And>x. (pre @ (m # mid) @ post)[nat (int (length pre)) := x] = (pre @ [x]) @ mid @ post"
      by (simp add: list_update_append)
    have k1: "\<And>x::string. int (length pre) + 1 = int (length (pre @ [x]))" by simp
    have di: "drop (nat i) up = up ! nat i # drop (nat (i + 1)) up"
      using lt Cons.prems by (simp add: Cons_nth_drop_Suc nat_add_distrib)
    have dj: "drop (nat j) low = low ! nat j # drop (nat (j + 1)) low"
      using lt Cons.prems by (simp add: Cons_nth_drop_Suc nat_add_distrib)
    show ?thesis
    proof (cases "cmp (up ! nat i) (low ! nat j)")
      case c: True
      have ih: "do {
         (v1, i', j', k') \<leftarrow> merge_loop cmp up low (int (length up)) (int (length low))
                            ((pre @ [up ! nat i]) @ mid @ post) (i + 1) j (int (length (pre @ [up ! nat i])));
         (v2, k2) \<leftarrow> rest_loop up (int (length up)) v1 i' k';
         (v3, k3) \<leftarrow> rest_loop low (int (length low)) v2 j' k2;
         Some v3
       } = Some ((pre @ [up ! nat i]) @ merge_lists cmp (drop (nat (i + 1)) up) (drop (nat j) low) @ post)"
        using Cons.prems lt by (intro Cons.IH) auto
      have ml: "merge_lists cmp (drop (nat i) up) (drop (nat j) low)
                = up ! nat i # merge_lists cmp (drop (nat (i + 1)) up) (drop (nat j) low)"
      proof -
        obtain y ys where e: "drop (nat j) low = y # ys" "y = low ! nat j" using dj by blast
        show ?thesis using c e by (simp add: di)
      qed
      show ?thesis
        apply (subst merge_loop.simps)
        using True r c ih
        apply (simp only: upd k1 [of "up ! nat i"] if_True simp_thms ml)
        apply simp
        done
    next
      case c: False
      have ih: "do {
         (v1, i', j', k') \<leftarrow> merge_loop cmp up low (int (length up)) (int (length low))
                            ((pre @ [low ! nat j]) @ mid @ post) i (j + 1) (int (length (pre @ [low ! nat j])));
         (v2, k2) \<leftarrow> rest_loop up (int (length up)) v1 i' k';
         (v3, k3) \<leftarrow> rest_loop low (int (length low)) v2 j' k2;
         Some v3
       } = Some ((pre @ [low ! nat j]) @ merge_lists cmp (drop (nat i) up) (drop (nat (j + 1)) low) @ post)"
        using Cons.prems lt by (intro Cons.IH) auto
      have ml: "merge_lists cmp (drop (nat i) up) (drop (nat j) low)
                = low ! nat j # merge_lists cmp (drop (nat i) up) (drop (nat (j + 1)) low)"
      proof -
        obtain x xs where e: "drop (nat i) up = x # xs" "x = up ! nat i" using di by blast
        show ?thesis using c e by (simp add: dj)
      qed
      show ?thesis
        apply (subst merge_loop.simps)
        using True r c ih
        apply (simp only: upd k1 [of "low ! nat j"] if_True if_False simp_thms ml)
        apply simp
        done
    qed
  next
    case False
    show ?thesis
    proof (cases "i < int (length up)")
      case True
      then have j: "j = int (length low)" using False Cons.prems by auto
      have len: "nat i + length (m # mid) = length up" using Cons.prems True j by auto
      have r1: "rest_loop up (int (length up)) (pre @ (m # mid) @ post) i (int (length pre))
                = Some (pre @ drop (nat i) up @ post, int (length pre) + int (length (m # mid)))"
        using rest_loop_slice [OF Cons.prems(1) len] .
      show ?thesis
        apply (subst merge_loop.simps)
        using j r1 apply (simp add: merge_lists_Nil2)
        apply (subst rest_loop.simps) apply simp
        done
    next
      case iF: False
      then have i: "i = int (length up)" using Cons.prems by auto
      have len: "nat j + length (m # mid) = length low" using Cons.prems i by auto
      have r1: "rest_loop low (int (length low)) (pre @ (m # mid) @ post) j (int (length pre))
                = Some (pre @ drop (nat j) low @ post, int (length pre) + int (length (m # mid)))"
        using rest_loop_slice [OF Cons.prems(2) len] .
      have r0: "\<And>v k. rest_loop up (int (length up)) v (int (length up)) k = Some (v, k)"
        by (subst rest_loop.simps) simp
      show ?thesis
        apply (subst merge_loop.simps)
        using i r1 r0 apply simp
        done
    qed
  qed
qed

lemma merge_slices:
  "merge (pre @ A @ B @ post) (int (length pre)) (int (length pre) + int (length A) - 1)
         (int (length pre) + int (length A) + int (length B) - 1) cmp
   = Some (pre @ merge_lists cmp A B @ post)"
proof -
  have f1: "fill_loop (pre @ A @ B @ post) (int (length pre)) (int (length A)) 0
              (replicate (length A) []) = Some A"
    using fill_loop_all [of pre A "B @ post"] by simp
  have f2: "fill_loop (pre @ A @ B @ post) (int (length pre) + int (length A)) (int (length B)) 0
              (replicate (length B) []) = Some B"
    using fill_loop_all [of "pre @ A" B post] by simp
  have t: "do {
     (v1, i', j', k') \<leftarrow> merge_loop cmp A B (int (length A)) (int (length B))
                            (pre @ (A @ B) @ post) 0 0 (int (length pre));
     (v2, k2) \<leftarrow> rest_loop A (int (length A)) v1 i' k';
     (v3, k3) \<leftarrow> rest_loop B (int (length B)) v2 j' k2;
     Some v3
   } = Some (pre @ merge_lists cmp (drop (nat 0) A) (drop (nat 0) B) @ post)"
    by (rule merge_tail) simp_all
  have us: "int (length pre) + int (length A) - 1 - int (length pre) + 1 = int (length A)"
    by simp
  have ls: "int (length pre) + int (length A) + int (length B) - 1
            - (int (length pre) + int (length A) - 1) = int (length B)"
    by simp
  have b2: "int (length pre) + int (length A) - 1 + 1 = int (length pre) + int (length A)"
    by simp
  show ?thesis
    unfolding merge_def Let_def us ls b2
    using t by (simp add: f1 f2)
qed

lemma mset_merge_lists: "mset (merge_lists cmp xs ys) = mset xs + mset ys"
  by (induction cmp xs ys rule: merge_lists.induct) simp_all

lemma mset_msort_lists: "mset (msort_lists cmp xs) = mset xs"
proof (induction cmp xs rule: msort_lists.induct)
  case (1 cmp xs)
  show ?case
  proof (cases "length xs \<le> 1")
    case True
    then show ?thesis by (subst msort_lists.simps) simp
  next
    case False
    have "mset (take ((length xs + 1) div 2) xs) + mset (drop ((length xs + 1) div 2) xs) = mset xs"
      by (metis append_take_drop_id mset_append)
    then show ?thesis
      using False 1 by (subst msort_lists.simps) (simp add: mset_merge_lists)
  qed
qed

lemma length_msort_lists: "length (msort_lists cmp xs) = length xs"
  by (metis mset_msort_lists size_mset)

lemma MergeSort_slice:
  "MergeSort (pre @ xs @ post) (int (length pre)) (int (length pre) + int (length xs) - 1) cmp
   = Some (pre @ msort_lists cmp xs @ post)"
proof (induction "length xs" arbitrary: xs pre post rule: less_induct)
  case less
  show ?case
  proof (cases "length xs \<le> 1")
    case True
    then show ?thesis
      by (subst MergeSort.simps, subst msort_lists.simps) simp
  next
    case False
    define h where "h = (length xs + 1) div 2"
    define A where "A = take h xs"
    define B where "B = drop h xs"
    have xs: "xs = A @ B" by (simp add: A_def B_def)
    have h: "0 < h" "h < length xs" using False by (auto simp: h_def)
    have lA: "length A = h" using h by (simp add: A_def)
    have lB: "length B = length xs - h" by (simp add: B_def)
    have mid: "int (length pre) + (int (length pre) + int (length xs) - 1 - int (length pre)) div 2
               = int (length pre) + int (length A) - 1"
      using False by (simp add: lA h_def)
    have lo: "int (length pre) + int (length xs) - 1
              = int (length pre) + int (length A) + int (length B) - 1"
      using h by (simp add: lA lB)
    have s1: "MergeSort (pre @ A @ (B @ post)) (int (length pre)) (int (length pre) + int (length A) - 1) cmp
              = Some (pre @ msort_lists cmp A @ (B @ post))"
      using h lA by (intro less) simp
    have s2: "MergeSort ((pre @ msort_lists cmp A) @ B @ post) (int (length (pre @ msort_lists cmp A)))
                (int (length (pre @ msort_lists cmp A)) + int (length B) - 1) cmp
              = Some ((pre @ msort_lists cmp A) @ msort_lists cmp B @ post)"
      using h lB by (intro less) simp
    have m: "merge (pre @ msort_lists cmp A @ msort_lists cmp B @ post) (int (length pre))
               (int (length pre) + int (length A) - 1)
               (int (length pre) + int (length A) + int (length B) - 1) cmp
             = Some (pre @ merge_lists cmp (msort_lists cmp A) (msort_lists cmp B) @ post)"
      using merge_slices [of pre "msort_lists cmp A" "msort_lists cmp B" post cmp]
      by (simp add: length_msort_lists)
    have ms: "msort_lists cmp xs = merge_lists cmp (msort_lists cmp A) (msort_lists cmp B)"
      using False by (subst msort_lists.simps) (simp add: A_def B_def h_def)
    have cond: "int (length pre) < int (length pre) + int (length xs) - 1" using False by simp
    have s2': "MergeSort (pre @ msort_lists cmp A @ B @ post) (int (length pre) + int (length A) - 1 + 1)
                (int (length pre) + int (length A) + int (length B) - 1) cmp
              = Some (pre @ msort_lists cmp A @ msort_lists cmp B @ post)"
      using s2 by (simp add: length_msort_lists algebra_simps)
    show ?thesis
      apply (subst MergeSort.simps)
      apply (simp only: cond if_True Let_def mid)
      apply (simp only: lo)
      apply (subst xs)
      using s1 s2' m ms apply simp
      done
  qed
qed

section \<open>What the merge sort computes: a sorted permutation\<close>







section \<open>The wrapper: the index conversion and the sorted prefix\<close>

lemma size_minus_one_empty: "size_minus_one 0 = - 1"
  by (simp add: size_minus_one_def to_int32_def)

lemma to_int32_le: "0 \<le> x \<Longrightarrow> to_int32 x \<le> x"
proof -
  assume "0 \<le> x"
  then have "x mod 2 ^ 32 \<le> x" by (rule zmod_le_nonneg_dividend)
  then show ?thesis by (auto simp: to_int32_def Let_def)
qed

lemma size_minus_one_less: "size_minus_one n < int n"
proof (cases "n = 0")
  case True
  then show ?thesis by (simp add: size_minus_one_empty)
next
  case False
  then have nn: "0 \<le> int n - 1" by simp
  have "(int n - 1) mod 2 ^ 64 \<le> int n - 1"
    using nn by (rule zmod_le_nonneg_dividend)
  moreover have "to_int32 ((int n - 1) mod 2 ^ 64) \<le> (int n - 1) mod 2 ^ 64"
    by (rule to_int32_le) simp
  ultimately show ?thesis by (simp add: size_minus_one_def)
qed

lemma size_minus_one_small: "n \<le> 2 ^ 31 \<Longrightarrow> size_minus_one n = int n - 1"
proof (cases "n = 0")
  case True
  then show ?thesis by (simp add: size_minus_one_empty)
next
  case False
  assume "n \<le> 2 ^ 31"
  then have b: "0 \<le> int n - 1" "int n - 1 < 2 ^ 31" using False by auto
  then have "(int n - 1) mod 2 ^ 64 = int n - 1" by simp
  moreover have "(int n - 1) mod 2 ^ 32 = int n - 1" using b by simp
  ultimately show ?thesis using b by (simp add: size_minus_one_def to_int32_def)
qed

lemma msort_lists_Nil: "msort_lists cmp [] = []"
  by (subst msort_lists.simps) simp

lemma MergeSort_prefix:
  assumes "lower < int (length L)"
  shows "MergeSort L 0 lower cmp
         = Some (msort_lists cmp (take (nat (lower + 1)) L) @ drop (nat (lower + 1)) L)"
proof (cases "0 \<le> lower")
  case True
  define n where "n = nat (lower + 1)"
  have n: "n \<le> length L" "int n = lower + 1" using True assms by (auto simp: n_def)
  have "MergeSort ([] @ take n L @ drop n L) (int (length ([]::vec)))
          (int (length ([]::vec)) + int (length (take n L)) - 1) cmp
        = Some ([] @ msort_lists cmp (take n L) @ drop n L)"
    by (rule MergeSort_slice)
  then show ?thesis using n by (simp add: n_def [symmetric] min_absorb2)
next
  case False
  then show ?thesis
    by (subst MergeSort.simps) (simp add: msort_lists_Nil)
qed

lemma Sort_eq:
  "Sort L P = Some (msort_lists (IsFirstAboveSecond P) (take (nat (size_minus_one (length L) + 1)) L)
                    @ drop (nat (size_minus_one (length L) + 1)) L)"
  unfolding Sort_def MergeSortWrapper_def IsFirstAboveSecond_def
  by (simp add: case_prod_beta MergeSort_prefix [OF size_minus_one_less])

lemma Sort_small:
  "length L \<le> 2 ^ 31 \<Longrightarrow> Sort L P = Some (msort_lists (IsFirstAboveSecond P) L)"
  by (simp add: Sort_eq size_minus_one_small)

section \<open>The claims of the specification\<close>




text \<open>
  Claim C7. On the empty vector \<^verbatim>\<open>listToSort.size() - 1\<close> arrives in \<^verbatim>\<open>MergeSort\<close>
  as the index \<open>-1\<close>, the call with the bounds 0 and \<open>-1\<close> returns the vector as it is
  for every comparer, and the wrapper returns the empty vector for every selector.
\<close>

theorem C7_sort_empty:
  "size_minus_one (length ([] :: vec)) = - 1
   \<and> MergeSort [] 0 (size_minus_one (length ([] :: vec))) cmp = Some []
   \<and> Sort [] P = Some []"
  by (simp add: size_minus_one_empty MergeSort.simps Sort_def MergeSortWrapper_def case_prod_beta)





text \<open>
  Under \<open>LastLetterAsc\<close> two equal neighbours of the output do have
  \<open>IsFirstAboveSecond (out[i+1], out[i])\<close>, because that comparer answers "yes" on a
  string and itself.
\<close>

lemma Sort_equal_neighbours_LastLetterAsc:
  "Sort [''a'', ''a''] LastLetterAsc = Some [''a'', ''a'']
   \<and> IsFirstAboveSecond LastLetterAsc ([''a'', ''a''] ! 1) ([''a'', ''a''] ! 0)"
  by code_simp

text \<open>
  Claim C2. The comparer of \<open>LastLetterAsc\<close> answers "yes" on a string and itself: it is
  not irreflexive, so it is not a strict weak ordering.
\<close>

theorem C2_LastLetterAsc_on_equal_strings:
  "LastLetterAsc_IsFirstAboveSecond ''a'' ''a''"
  by (simp add: LastLetterAsc_IsFirstAboveSecond_def)

lemma LastLetterAsc_refl: "LastLetterAsc_IsFirstAboveSecond a a"
  by (simp add: LastLetterAsc_key)

lemma AlphAsc_strict_order:
  "\<not> AlphAsc_IsFirstAboveSecond a a"
  "\<not> (AlphAsc_IsFirstAboveSecond a b \<and> AlphAsc_IsFirstAboveSecond b a)"
  "AlphAsc_IsFirstAboveSecond a b \<Longrightarrow> AlphAsc_IsFirstAboveSecond b c \<Longrightarrow> AlphAsc_IsFirstAboveSecond a c"
  by (auto simp: AlphAsc_key)

lemma AlphDesc_strict_order:
  "\<not> AlphDesc_IsFirstAboveSecond a a"
  "\<not> (AlphDesc_IsFirstAboveSecond a b \<and> AlphDesc_IsFirstAboveSecond b a)"
  "AlphDesc_IsFirstAboveSecond a b \<Longrightarrow> AlphDesc_IsFirstAboveSecond b c \<Longrightarrow> AlphDesc_IsFirstAboveSecond a c"
  by (auto simp: AlphDesc_key)

lemma LastLetterAsc_trans:
  "LastLetterAsc_IsFirstAboveSecond a b \<Longrightarrow> LastLetterAsc_IsFirstAboveSecond b c \<Longrightarrow>
   LastLetterAsc_IsFirstAboveSecond a c"
  by (auto simp: LastLetterAsc_key)



lemma LastLetterAsc_loop_first_difference:
  "x \<noteq> y \<Longrightarrow> LastLetterAsc_loop (r @ x # p) (r @ y # q) = (char_val x < char_val y)"
  by (induction r) simp_all

lemma LastLetterAsc_loop_exhausted:
  "LastLetterAsc_loop r (r @ z # zs)" "\<not> LastLetterAsc_loop (r @ z # zs) r"
  by (induction r) simp_all

text \<open>
  Claim C9. The \<open>LastLetterAsc\<close> comparer walks both strings from their last character.
  Two strings with the common ending \<open>s\<close> and different characters \<open>x\<close>, \<open>y\<close> before it
  are decided by these characters: the first precedes when \<open>x\<close> is the smaller one. A
  string \<open>s\<close> that is exhausted first, being a proper ending of \<open>c # p @ s\<close>, precedes
  the longer string, and the longer does not precede it. The wrapper sorts
  \<open>cat, bat, ace\<close> into \<open>ace, bat, cat\<close>.
\<close>

theorem C9_LastLetterAsc_from_the_end:
  "(x \<noteq> y \<longrightarrow>
      LastLetterAsc_IsFirstAboveSecond (p @ x # s) (q @ y # s) = (char_val x < char_val y))
   \<and> LastLetterAsc_IsFirstAboveSecond s (c # p @ s)
   \<and> \<not> LastLetterAsc_IsFirstAboveSecond (c # p @ s) s
   \<and> Sort [''cat'', ''bat'', ''ace''] LastLetterAsc = Some [''ace'', ''bat'', ''cat'']"
proof -
  have 1: "x \<noteq> y \<longrightarrow>
      LastLetterAsc_IsFirstAboveSecond (p @ x # s) (q @ y # s) = (char_val x < char_val y)"
    by (simp add: LastLetterAsc_IsFirstAboveSecond_def LastLetterAsc_loop_first_difference)
  have r: "rev (c # p @ s) = rev s @ last (c # p) # rev (butlast (c # p))"
    by (metis append_Cons append_butlast_last_id list.distinct(1) rev.simps(2) rev_append append_assoc append_Nil)
  have 2: "LastLetterAsc_IsFirstAboveSecond s (c # p @ s)"
    and 3: "\<not> LastLetterAsc_IsFirstAboveSecond (c # p @ s) s"
    unfolding LastLetterAsc_IsFirstAboveSecond_def r
    by (rule LastLetterAsc_loop_exhausted)+
  have 4: "Sort [''cat'', ''bat'', ''ace''] LastLetterAsc = Some [''ace'', ''bat'', ''cat'']"
    by code_simp
  from 1 2 3 4 show ?thesis by blast
qed

theorem C9_LastLetterAsc_from_the_end_witness:
  "CHR ''b'' \<noteq> CHR ''c''
   \<and> LastLetterAsc_IsFirstAboveSecond ''bat'' ''cat''
   \<and> \<not> LastLetterAsc_IsFirstAboveSecond ''cat'' ''bat''
   \<and> LastLetterAsc_IsFirstAboveSecond ''at'' ''bat''"
  using C9_LastLetterAsc_from_the_end [of "CHR ''b''" "CHR ''c''" "[]" "''at''" "[]" "CHR ''b''"]
    C9_LastLetterAsc_from_the_end [of "CHR ''c''" "CHR ''b''" "[]" "''at''" "[]" "CHR ''b''"]
  by (simp add: char_val_def)

lemma MergeSort_range:
  assumes "0 \<le> upper" "upper \<le> lower" "lower < int (length v)"
  shows "MergeSort v upper lower cmp
         = Some (take (nat upper) v
                 @ msort_lists cmp (take (nat (lower - upper + 1)) (drop (nat upper) v))
                 @ drop (nat (lower + 1)) v)"
proof -
  define pre where "pre = take (nat upper) v"
  define xs where "xs = take (nat (lower - upper + 1)) (drop (nat upper) v)"
  define post where "post = drop (nat (lower + 1)) v"
  have lp: "int (length pre) = upper" using assms by (simp add: pre_def)
  have lx: "int (length xs) = lower - upper + 1" using assms by (simp add: xs_def)
  have "drop (nat (lower - upper + 1)) (drop (nat upper) v) = post"
    using assms by (simp add: post_def nat_add_distrib [symmetric] add.commute)
  then have "drop (nat upper) v = xs @ post"
    unfolding xs_def by (metis append_take_drop_id)
  then have v: "v = pre @ xs @ post"
    unfolding pre_def by (metis append_take_drop_id)
  have "MergeSort (pre @ xs @ post) (int (length pre)) (int (length pre) + int (length xs) - 1) cmp
        = Some (pre @ msort_lists cmp xs @ post)"
    by (rule MergeSort_slice)
  then show ?thesis
    unfolding lp lx v [symmetric] by (simp add: pre_def xs_def post_def)
qed

lemma merge_range:
  assumes "0 \<le> upper" "upper \<le> mid" "mid \<le> lower" "lower < int (length v)"
  shows "merge v upper mid lower cmp
         = Some (take (nat upper) v
                 @ merge_lists cmp (take (nat (mid - upper + 1)) (drop (nat upper) v))
                                   (take (nat (lower - mid)) (drop (nat (mid + 1)) v))
                 @ drop (nat (lower + 1)) v)"
proof -
  define pre where "pre = take (nat upper) v"
  define A where "A = take (nat (mid - upper + 1)) (drop (nat upper) v)"
  define B where "B = take (nat (lower - mid)) (drop (nat (mid + 1)) v)"
  define post where "post = drop (nat (lower + 1)) v"
  have lp: "int (length pre) = upper" using assms by (simp add: pre_def)
  have lA: "int (length A) = mid - upper + 1" using assms by (simp add: A_def)
  have lB: "int (length B) = lower - mid" using assms by (simp add: B_def)
  have "drop (nat (lower - mid)) (drop (nat (mid + 1)) v) = post"
    using assms by (simp add: post_def nat_add_distrib [symmetric] add.commute)
  then have 1: "drop (nat (mid + 1)) v = B @ post"
    unfolding B_def by (metis append_take_drop_id)
  have "drop (nat (mid - upper + 1)) (drop (nat upper) v) = drop (nat (mid + 1)) v"
    using assms by (simp add: nat_add_distrib [symmetric] add.commute)
  then have 2: "drop (nat upper) v = A @ B @ post"
    unfolding A_def using 1 by (metis append_take_drop_id)
  have v: "v = pre @ A @ B @ post"
    unfolding pre_def using 2 by (metis append_take_drop_id)
  have "merge (pre @ A @ B @ post) upper mid lower cmp = Some (pre @ merge_lists cmp A B @ post)"
    using merge_slices [of pre A B post cmp] by (simp add: lp lA lB)
  then have "merge v upper mid lower cmp = Some (pre @ merge_lists cmp A B @ post)"
    using v by simp
  then show ?thesis
    unfolding pre_def A_def B_def post_def .
qed

lemma length_merge_lists: "length (merge_lists cmp xs ys) = length xs + length ys"
  by (metis mset_merge_lists size_mset size_union)

lemma frame_outside:
  assumes "0 \<le> upper" "upper \<le> lower" "lower < int (length v)"
    and "int (length ys) = lower - upper + 1"
    and "v' = take (nat upper) v @ ys @ drop (nat (lower + 1)) v"
  shows "length v' = length v
         \<and> (\<forall>i<length v. int i < upper \<or> lower < int i \<longrightarrow> v' ! i = v ! i)"
proof -
  have ly: "length ys = nat (lower + 1) - nat upper" using assms by auto
  have len: "length v' = length v" using assms ly by auto
  have "\<forall>i<length v. int i < upper \<or> lower < int i \<longrightarrow> v' ! i = v ! i"
  proof (intro allI impI)
    fix i assume i: "i < length v" "int i < upper \<or> lower < int i"
    show "v' ! i = v ! i"
    proof (cases "int i < upper")
      case True
      then have "i < length (take (nat upper) v)" using assms i by simp
      then have "v' ! i = take (nat upper) v ! i"
        unfolding assms(5) by (rule nth_append_left)
      then show ?thesis using True by simp
    next
      case False
      then have hi: "lower < int i" using i by simp
      then have "nat (lower + 1) \<le> i" using assms by auto
      then obtain d where d: "i = nat (lower + 1) + d" using le_Suc_ex by blast
      have "length (take (nat upper) v @ ys) = nat (lower + 1)" using assms ly by auto
      then have "v' ! i = drop (nat (lower + 1)) v ! d"
        using assms(5) d by (metis append_assoc nth_append_length_plus)
      then show ?thesis using d i by simp
    qed
  qed
  with len show ?thesis by blast
qed

text \<open>
  Claim C10. For every vector, every comparer and every index range with
  \<open>0 \<le> upper \<le> lower < size\<close>, \<^verbatim>\<open>MergeSort\<close> returns a vector of the same length in
  which every element at an index below \<open>upper\<close> or above \<open>lower\<close> is the one it was; and
  so does \<^verbatim>\<open>merge\<close> for every \<open>mid\<close> of that range.
\<close>

theorem C10_MergeSort_frame:
  "0 \<le> upper \<Longrightarrow> upper \<le> lower \<Longrightarrow> lower < int (length v) \<Longrightarrow>
   (\<exists>v'. MergeSort v upper lower cmp = Some v' \<and> length v' = length v
         \<and> (\<forall>i<length v. int i < upper \<or> lower < int i \<longrightarrow> v' ! i = v ! i))
   \<and> (\<forall>mid. upper \<le> mid \<and> mid \<le> lower \<longrightarrow>
         (\<exists>v'. merge v upper mid lower cmp = Some v' \<and> length v' = length v
               \<and> (\<forall>i<length v. int i < upper \<or> lower < int i \<longrightarrow> v' ! i = v ! i)))"
proof -
  assume a: "0 \<le> upper" "upper \<le> lower" "lower < int (length v)"
  let ?xs = "take (nat (lower - upper + 1)) (drop (nat upper) v)"
  have "int (length (msort_lists cmp ?xs)) = lower - upper + 1"
    using a by (simp add: length_msort_lists)
  from frame_outside [OF a this refl] MergeSort_range [OF a, of cmp]
  have 1: "\<exists>v'. MergeSort v upper lower cmp = Some v' \<and> length v' = length v
         \<and> (\<forall>i<length v. int i < upper \<or> lower < int i \<longrightarrow> v' ! i = v ! i)"
    by simp
  have 2: "\<exists>v'. merge v upper mid lower cmp = Some v' \<and> length v' = length v
               \<and> (\<forall>i<length v. int i < upper \<or> lower < int i \<longrightarrow> v' ! i = v ! i)"
    if m: "upper \<le> mid \<and> mid \<le> lower" for mid
  proof -
    let ?A = "take (nat (mid - upper + 1)) (drop (nat upper) v)"
    let ?B = "take (nat (lower - mid)) (drop (nat (mid + 1)) v)"
    have "length ?A = nat (mid - upper + 1)" "length ?B = nat (lower - mid)"
      using a m by auto
    then have "int (length (merge_lists cmp ?A ?B)) = lower - upper + 1"
      using a m by (simp add: length_merge_lists)
    from frame_outside [OF a this refl] merge_range [OF a(1) _ _ a(3), of mid cmp] m
    show ?thesis by simp
  qed
  from 1 2 show ?thesis by blast
qed

theorem C10_MergeSort_frame_witness:
  "(0 :: int) \<le> 1 \<and> (1 :: int) \<le> 2 \<and> 2 < int (length [''d'', ''c'', ''b'', ''a''])
   \<and> MergeSort [''d'', ''c'', ''b'', ''a''] 1 2 AlphAsc_IsFirstAboveSecond
       = Some [''d'', ''b'', ''c'', ''a'']
   \<and> merge [''d'', ''c'', ''b'', ''a''] 1 1 2 AlphAsc_IsFirstAboveSecond
       = Some [''d'', ''b'', ''c'', ''a'']"
proof -
  have h: "(0 :: int) \<le> 1" "(1 :: int) \<le> 2" "2 < int (length [''d'', ''c'', ''b'', ''a''])"
    by simp_all
  have e: "MergeSort [''d'', ''c'', ''b'', ''a''] 1 2 AlphAsc_IsFirstAboveSecond
             = Some [''d'', ''b'', ''c'', ''a'']"
    "merge [''d'', ''c'', ''b'', ''a''] 1 1 2 AlphAsc_IsFirstAboveSecond
             = Some [''d'', ''b'', ''c'', ''a'']"
    by code_simp+
  from C10_MergeSort_frame [OF h, of AlphAsc_IsFirstAboveSecond] e h
  show ?thesis by simp
qed

lemma special_char_iff: "(isdigit ch \<or> \<not> isalnum ch) = (\<not> is_letter ch)"
  by (auto simp: isdigit_def isalnum_def is_letter_def Let_def)

lemma ContainsSpecial_iff: "ContainsSpecial str = (\<not> list_all is_letter str)"
  by (induction str) (simp_all add: special_char_iff)

lemma ReadFile_loop_filter:
  "snd (ReadFile_loop fileName lines (console, listOut))
   = listOut @ filter (\<lambda>line. line \<noteq> [] \<and> \<not> ContainsSpecial line) lines"
  by (induction lines arbitrary: console listOut) simp_all

text \<open>
  Claim C4. \<^verbatim>\<open>ReadFile\<close> keeps exactly the lines of the file that are not empty and for
  which \<^verbatim>\<open>ContainsSpecial\<close> is false, in their order; that test is the validator of the
  specification, which accepts a line when it is not empty and consists of letters of
  \<^verbatim>\<open>[A-Za-z]\<close> only. The validator rejects \<open>abc123\<close>, the empty line and
  \<open>hello world\<close> and accepts \<open>Hello\<close>, and of a file with these four lines
  \<^verbatim>\<open>ReadFile\<close> returns \<open>Hello\<close> alone.
\<close>

theorem C4_validator_accepts_letters_only:
  "(fs fileName = Some lines \<longrightarrow>
      snd (ReadFile fs fileName) = filter (\<lambda>line. line \<noteq> [] \<and> \<not> ContainsSpecial line) lines)
   \<and> (line \<noteq> [] \<and> \<not> ContainsSpecial line) = IsValid line
   \<and> \<not> IsValid ''abc123'' \<and> \<not> IsValid '''' \<and> \<not> IsValid ''hello world'' \<and> IsValid ''Hello''
   \<and> snd (ReadFile (\<lambda>name. Some [''abc123'', '''', ''hello world'', ''Hello'']) fileName)
       = [''Hello'']"
proof -
  have 1: "fs fileName = Some lines \<longrightarrow>
      snd (ReadFile fs fileName) = filter (\<lambda>line. line \<noteq> [] \<and> \<not> ContainsSpecial line) lines"
    by (simp add: ReadFile_def ReadFile_loop_filter)
  have 2: "(line \<noteq> [] \<and> \<not> ContainsSpecial line) = IsValid line"
    by (simp add: IsValid_def ContainsSpecial_iff)
  have 3: "\<not> IsValid ''abc123''" "\<not> IsValid ''''" "\<not> IsValid ''hello world''" "IsValid ''Hello''"
    by (simp_all add: IsValid_def is_letter_def)
  have 4: "snd (ReadFile (\<lambda>name. Some [''abc123'', '''', ''hello world'', ''Hello'']) fileName)
       = [''Hello'']"
    by (simp add: ReadFile_def ReadFile_loop_filter isdigit_def isalnum_def)
  from 1 2 3 4 show ?thesis by blast
qed

theorem C4_validator_accepts_letters_only_witness:
  "(\<lambda>name. if name = ''in.txt'' then Some [''Pear'', ''x1'', '''', ''fig''] else None) ''in.txt''
     = Some [''Pear'', ''x1'', '''', ''fig'']
   \<and> snd (ReadFile (\<lambda>name. if name = ''in.txt'' then Some [''Pear'', ''x1'', '''', ''fig''] else None)
             ''in.txt'') = [''Pear'', ''fig'']"
  using C4_validator_accepts_letters_only
    [of "\<lambda>name. if name = ''in.txt'' then Some [''Pear'', ''x1'', '''', ''fig''] else None"
        "''in.txt''" "[''Pear'', ''x1'', '''', ''fig'']"]
  by (simp add: isdigit_def isalnum_def)






end
